theory Spec2Isabelle
  imports Main "HOL-Library.Word"
begin

section \<open>The connection of conn.go\<close>

text \<open>
  A shallow embedding of \<^verbatim>\<open>conn.go\<close>: the \<^verbatim>\<open>Conn\<close> struct, the upcalls that
  the engine makes on it and the blocking operations of the application side.

  Every function of the source runs with the package lock \<^verbatim>\<open>mu\<close> held, so each one is
  an atomic step on the connection, except where it calls \<^verbatim>\<open>c.cond.Wait()\<close>: there
  the lock is released and other steps run before the caller resumes.

  What the code does beyond its fields is kept in a log of events: the calls into the
  engine (\<^verbatim>\<open>C.utp_close\<close>, \<^verbatim>\<open>C.utp_read_drained\<close>, \<^verbatim>\<open>C.utp_write\<close>, the two
  address queries) with the handle they were given, and the calls on the condition
  variable.
\<close>

subsection \<open>Data\<close>

type_synonym byte = "8 word"

text \<open>
  A \<^verbatim>\<open>time.Time\<close> is an integer count of nanoseconds; \<open>0\<close> is the zero time, for
  which \<^verbatim>\<open>IsZero\<close> holds. A duration is an integer as well.
\<close>

type_synonym time = int

text \<open>The \<^verbatim>\<open>*C.utp_socket\<close>: \<open>None\<close> is \<^verbatim>\<open>nil\<close>.\<close>

type_synonym utp_socket = "nat option"

text \<open>
  A \<^verbatim>\<open>*time.Timer\<close>, by what its last \<^verbatim>\<open>Stop\<close> or \<^verbatim>\<open>Reset\<close> left: stopped, or due
  to fire at an instant. When it fires it broadcasts on the condition variable and
  changes no field.
\<close>

datatype timer = Stopped | FiresAt time

text \<open>
  The errors the operations return. \<^verbatim>\<open>errors.New(codeName)\<close> of \<^verbatim>\<open>onLibError\<close> is
  \<open>LibError codeName\<close>; \<^verbatim>\<open>errors.New("destroyed")\<close> and \<^verbatim>\<open>errors.New("closed")\<close> are
  \<open>Destroyed\<close> and \<open>Closed\<close>; \<^verbatim>\<open>io.EOF\<close> is \<open>EOF\<close>.
\<close>

datatype error = EOF | LibError string | Destroyed | Closed | DeadlineExceeded

text \<open>
  The panics: the two \<^verbatim>\<open>panic\<close> calls of the source, and the two run-time panics of
  Go that its slice expressions can raise (\<^verbatim>\<open>&b[0]\<close> on an empty slice, \<^verbatim>\<open>b[n1:]\<close>
  past the end).
\<close>

datatype panic =
    MultipleLibErrors string string
  | NegativeWrite int
  | IndexOutOfRange
  | SliceBoundsOutOfRange

datatype event =
    UtpClose utp_socket
  | UtpReadDrained utp_socket
  | UtpWrite utp_socket "byte list" int
  | UtpGetContext utp_socket
  | UtpGetpeername utp_socket
  | Broadcast
  | Wait

record Conn =
  s :: utp_socket
  readBuf :: "byte list"
  gotEOF :: bool
  gotConnect :: bool
  destroyed :: bool
  closed :: bool
  libError :: "string option"
  writeDeadline :: time
  writeDeadlineTimer :: timer
  readDeadline :: time
  readDeadlineTimer :: timer
  numBytesRead :: "64 word"
  numBytesWritten :: "64 word"

text \<open>
  The connection in its surroundings: the clock that \<^verbatim>\<open>time.Now()\<close> reads, the log
  of events, and the engine's answers to \<^verbatim>\<open>C.utp_write\<close> (the answer to the
  \<open>k\<close>-th call of the run, whatever the engine decides it to be).
\<close>

record world =
  conn :: Conn
  now :: time
  events :: "event list"
  utp_write_answer :: "nat \<Rightarrow> int"
  utp_write_calls :: nat

definition emit :: "event \<Rightarrow> world \<Rightarrow> world" where
  "emit e w = w\<lparr>events := events w @ [e]\<rparr>"

subsection \<open>Upcalls\<close>

definition onLibError :: "string \<Rightarrow> world \<Rightarrow> panic + world" where
  "onLibError codeName w =
     (case libError (conn w) of
        Some e \<Rightarrow> Inl (MultipleLibErrors codeName e)
      | None \<Rightarrow> Inr (emit Broadcast (w\<lparr>conn := (conn w)\<lparr>libError := Some codeName\<rparr>\<rparr>)))"

definition setConnected :: "world \<Rightarrow> world" where
  "setConnected w = emit Broadcast (w\<lparr>conn := (conn w)\<lparr>gotConnect := True\<rparr>\<rparr>)"

definition setGotEOF :: "world \<Rightarrow> world" where
  "setGotEOF w = emit Broadcast (w\<lparr>conn := (conn w)\<lparr>gotEOF := True\<rparr>\<rparr>)"

definition onDestroyed :: "world \<Rightarrow> world" where
  "onDestroyed w =
     emit Broadcast (w\<lparr>conn := (conn w)\<lparr>destroyed := True, s := None\<rparr>\<rparr>)"

text \<open>
  Modelled from the spec: the data-arrival upcall, which is not in \<^verbatim>\<open>conn.go\<close>. The
  spec's on-data "appends delivered bytes to \<^verbatim>\<open>inboundBuffer\<close>", and each upcall
  broadcasts after it has changed the state.
\<close>

definition onData :: "byte list \<Rightarrow> world \<Rightarrow> world" where
  "onData bs w = emit Broadcast (w\<lparr>conn := (conn w)\<lparr>readBuf := readBuf (conn w) @ bs\<rparr>\<rparr>)"

subsection \<open>Close\<close>

definition close :: "world \<Rightarrow> world" where
  "close w =
     (if closed (conn w) then w
      else
        let w1 = (if \<not> destroyed (conn w)
                  then (emit (UtpClose (s (conn w))) w)\<lparr>conn := (conn w)\<lparr>s := None\<rparr>\<rparr>
                  else w)
        in emit Broadcast (w1\<lparr>conn := (conn w1)\<lparr>closed := True\<rparr>\<rparr>))"

definition Close :: "world \<Rightarrow> error option \<times> world" where
  "Close w = (None, close w)"

subsection \<open>Deadlines\<close>

text \<open>
  A \<^verbatim>\<open>time.Duration\<close> is an \<^verbatim>\<open>int64\<close> count of nanoseconds, so it lies between
  \<open>minDuration\<close> and \<open>maxDuration\<close>. \<^verbatim>\<open>t.Sub(u)\<close> is the duration from \<open>u\<close> to \<open>t\<close>
  when that fits, and otherwise the largest or the smallest duration. A timer reset
  with a duration is due that long after now; a timer that is due at an instant not
  after now fires at once.
\<close>

definition maxDuration :: int where
  "maxDuration = 9223372036854775807"

definition minDuration :: int where
  "minDuration = - 9223372036854775808"

definition Sub :: "time \<Rightarrow> time \<Rightarrow> int" where
  "Sub t u =
     (if maxDuration < t - u then maxDuration
      else if t - u < minDuration then minDuration
      else t - u)"

definition Reset :: "int \<Rightarrow> time \<Rightarrow> timer" where
  "Reset d current = FiresAt (current + d)"

definition SetDeadline :: "time \<Rightarrow> world \<Rightarrow> error option \<times> world" where
  "SetDeadline t w =
     (let c1 = (conn w)\<lparr>readDeadline := t, writeDeadline := t\<rparr>;
          c2 = (if t = 0
                then c1\<lparr>readDeadlineTimer := Stopped, writeDeadlineTimer := Stopped\<rparr>
                else let d = Sub t (now w)
                     in c1\<lparr>readDeadlineTimer := Reset d (now w),
                           writeDeadlineTimer := Reset d (now w)\<rparr>)
      in (None, emit Broadcast (w\<lparr>conn := c2\<rparr>)))"

definition SetReadDeadline :: "time \<Rightarrow> world \<Rightarrow> error option \<times> world" where
  "SetReadDeadline t w =
     (let c1 = (conn w)\<lparr>readDeadline := t\<rparr>;
          c2 = (if t = 0
                then c1\<lparr>readDeadlineTimer := Stopped\<rparr>
                else let d = Sub t (now w)
                     in c1\<lparr>readDeadlineTimer := Reset d (now w)\<rparr>)
      in (None, emit Broadcast (w\<lparr>conn := c2\<rparr>)))"

definition SetWriteDeadline :: "time \<Rightarrow> world \<Rightarrow> error option \<times> world" where
  "SetWriteDeadline t w =
     (let c1 = (conn w)\<lparr>writeDeadline := t\<rparr>;
          c2 = (if t = 0
                then c1\<lparr>writeDeadlineTimer := Stopped\<rparr>
                else let d = Sub t (now w)
                     in c1\<lparr>writeDeadlineTimer := Reset d (now w)\<rparr>)
      in (None, emit Broadcast (w\<lparr>conn := c2\<rparr>)))"

subsection \<open>Addresses\<close>

text \<open>
  \<^verbatim>\<open>LocalAddr\<close> and \<^verbatim>\<open>RemoteAddr\<close> ask the engine and assign no field; the address
  they return is computed outside \<^verbatim>\<open>conn.go\<close> and is left out.
\<close>

definition LocalAddr :: "world \<Rightarrow> world" where
  "LocalAddr w = emit (UtpGetContext (s (conn w))) w"

definition RemoteAddr :: "world \<Rightarrow> world" where
  "RemoteAddr w = emit (UtpGetpeername (s (conn w))) w"

subsection \<open>What runs while a caller waits\<close>

text \<open>
  \<^verbatim>\<open>c.cond.Wait()\<close> releases the lock until a broadcast wakes the caller. Until then
  the engine's upcalls, the non-blocking operations of other threads and the clock
  run, each one atomically. A wake-up is the list of what ran before it; a timer that
  fires, or a wake-up for no reason, is the empty list.
\<close>

datatype env_action =
    OnConnected
  | OnData "byte list"
  | OnEOF
  | OnError string
  | OnDestroyed
  | DoClose
  | DoSetDeadline time
  | DoSetReadDeadline time
  | DoSetWriteDeadline time
  | DoLocalAddr
  | DoRemoteAddr
  | Tick nat

fun env_step :: "env_action \<Rightarrow> world \<Rightarrow> panic + world" where
  "env_step OnConnected w = Inr (setConnected w)"
| "env_step (OnData bs) w = Inr (onData bs w)"
| "env_step OnEOF w = Inr (setGotEOF w)"
| "env_step (OnError codeName) w = onLibError codeName w"
| "env_step OnDestroyed w = Inr (onDestroyed w)"
| "env_step DoClose w = Inr (snd (Close w))"
| "env_step (DoSetDeadline t) w = Inr (snd (SetDeadline t w))"
| "env_step (DoSetReadDeadline t) w = Inr (snd (SetReadDeadline t w))"
| "env_step (DoSetWriteDeadline t) w = Inr (snd (SetWriteDeadline t w))"
| "env_step DoLocalAddr w = Inr (LocalAddr w)"
| "env_step DoRemoteAddr w = Inr (RemoteAddr w)"
| "env_step (Tick d) w = Inr (w\<lparr>now := now w + int d\<rparr>)"

fun run_env :: "env_action list \<Rightarrow> world \<Rightarrow> panic + world" where
  "run_env [] w = Inr w"
| "run_env (a # as) w =
     (case env_step a w of Inl p \<Rightarrow> Inl p | Inr w1 \<Rightarrow> run_env as w1)"

text \<open>
  How a blocking call ends: it returns, the process panics, or the call is still in
  \<^verbatim>\<open>Wait\<close> when the wake-ups given to it are used up.
\<close>

datatype 'a outcome = Returned 'a | Panicked panic | Waiting

subsection \<open>Connecting\<close>

fun waitForConnect :: "env_action list list \<Rightarrow> world \<Rightarrow> error option outcome \<times> world" where
  "waitForConnect wakeups w =
     (case libError (conn w) of
        Some e \<Rightarrow> (Returned (Some (LibError e)), w)
      | None \<Rightarrow>
          if gotConnect (conn w) then (Returned None, w)
          else
            (case wakeups of
               [] \<Rightarrow> (Waiting, emit Wait w)
             | e # es \<Rightarrow>
                 (case run_env e (emit Wait w) of
                    Inl p \<Rightarrow> (Panicked p, emit Wait w)
                  | Inr w1 \<Rightarrow> waitForConnect es w1)))"

subsection \<open>Read\<close>

definition readNoWait_err :: "world \<Rightarrow> error option" where
  "readNoWait_err w =
     (let c = conn w in
      if gotEOF c then Some EOF
      else case libError c of
        Some e \<Rightarrow> Some (LibError e)
      | None \<Rightarrow>
          if destroyed c then Some Destroyed
          else if closed c then Some Closed
          else if readDeadline c \<noteq> 0 \<and> \<not> now w < readDeadline c then Some DeadlineExceeded
          else None)"

text \<open>
  \<^verbatim>\<open>readNoWait\<close> returns \<open>n\<close> and the error, and has written \<open>n\<close> bytes into the
  caller's slice \<open>b\<close>: the result carries the slice as it is afterwards.
\<close>

definition readNoWait :: "byte list \<Rightarrow> world \<Rightarrow> (nat \<times> error option) \<times> byte list \<times> world" where
  "readNoWait b w =
     (let n = min (length b) (length (readBuf (conn w)));
          b1 = take n (readBuf (conn w)) @ drop n b;
          w1 = w\<lparr>conn := (conn w)\<lparr>readBuf := drop n (readBuf (conn w))\<rparr>\<rparr>;
          w2 = (if n \<noteq> 0 \<and> length (readBuf (conn w1)) = 0
                then emit (UtpReadDrained (s (conn w1))) w1
                else w1)
      in ((n, readNoWait_err w2), b1, w2))"

fun Read :: "byte list \<Rightarrow> env_action list list \<Rightarrow> world
    \<Rightarrow> ((nat \<times> error option) \<times> byte list) outcome \<times> world" where
  "Read b wakeups w =
     (case readNoWait b w of
        ((n, err), b1, w1) \<Rightarrow>
          let w2 = w1\<lparr>conn := (conn w1)\<lparr>numBytesRead := numBytesRead (conn w1) + of_nat n\<rparr>\<rparr>
          in if n \<noteq> 0 \<or> length b = 0 \<or> err \<noteq> None
             then (Returned ((n, err), b1), w2)
             else
               (case wakeups of
                  [] \<Rightarrow> (Waiting, emit Wait w2)
                | e # es \<Rightarrow>
                    (case run_env e (emit Wait w2) of
                       Inl p \<Rightarrow> (Panicked p, emit Wait w2)
                     | Inr w3 \<Rightarrow> Read b es w3)))"

subsection \<open>Write\<close>

definition writeNoWait_err :: "world \<Rightarrow> error option" where
  "writeNoWait_err w =
     (let c = conn w in
      case libError c of
        Some e \<Rightarrow> Some (LibError e)
      | None \<Rightarrow>
          if closed c then Some Closed
          else if destroyed c then Some Destroyed
          else if writeDeadline c \<noteq> 0 \<and> \<not> now w < writeDeadline c then Some DeadlineExceeded
          else None)"

definition writeNoWait :: "byte list \<Rightarrow> world \<Rightarrow> panic + ((int \<times> error option) \<times> world)" where
  "writeNoWait b w =
     (case writeNoWait_err w of
        Some e \<Rightarrow> Inr ((0, Some e), w)
      | None \<Rightarrow>
          if b = [] then Inl IndexOutOfRange
          else
            let n = utp_write_answer w (utp_write_calls w);
                w1 = emit (UtpWrite (s (conn w)) b n) (w\<lparr>utp_write_calls := Suc (utp_write_calls w)\<rparr>)
            in if n < 0 then Inl (NegativeWrite n) else Inr ((n, None), w1))"

definition Write_return :: "int \<Rightarrow> error option \<Rightarrow> world \<Rightarrow> (int \<times> error option) outcome \<times> world" where
  "Write_return n err w =
     (Returned (n, err),
      w\<lparr>conn := (conn w)\<lparr>numBytesWritten := numBytesWritten (conn w) + word_of_int n\<rparr>\<rparr>)"

function Write_loop :: "byte list \<Rightarrow> int \<Rightarrow> env_action list list \<Rightarrow> world
    \<Rightarrow> (int \<times> error option) outcome \<times> world" where
  "Write_loop b n wakeups w =
     (if length b \<noteq> 0 then
        (case writeNoWait b w of
           Inl p \<Rightarrow> (Panicked p, w)
         | Inr ((n1, err), w1) \<Rightarrow>
             if int (length b) < n1 then (Panicked SliceBoundsOutOfRange, w1)
             else if err \<noteq> None then Write_return (n + n1) err w1
             else if n1 \<noteq> 0 then Write_loop (drop (nat n1) b) (n + n1) wakeups w1
             else
               (case wakeups of
                  [] \<Rightarrow> (Waiting, emit Wait w1)
                | e # es \<Rightarrow>
                    (case run_env e (emit Wait w1) of
                       Inl p \<Rightarrow> (Panicked p, emit Wait w1)
                     | Inr w2 \<Rightarrow> Write_loop (drop (nat n1) b) (n + n1) es w2)))
      else Write_return n None w)"
  by pat_completeness auto
termination
proof (relation "measure (\<lambda>(b, n, wakeups, w). length wakeups + length b)")
  show "wf (measure (\<lambda>(b, n, wakeups, w). length wakeups + length b))"
    by simp
next
  fix b :: "byte list" and n :: int and wakeups :: "env_action list list" and w :: world
    and x2 x y n1 err
  assume "length b \<noteq> 0" and "writeNoWait b w = Inr x2" and "(x, y) = x2"
    and "(n1, err) = x" and "\<not> int (length b) < n1" and "\<not> err \<noteq> None" and "n1 \<noteq> 0"
  then have "0 < n1"
    by (auto simp: writeNoWait_def Let_def split: option.splits if_splits)
  then show "((drop (nat n1) b, n + n1, wakeups, y), b, n, wakeups, w)
      \<in> measure (\<lambda>(b, n, wakeups, w). length wakeups + length b)"
    using \<open>length b \<noteq> 0\<close> by simp
next
  fix b :: "byte list" and n :: int and wakeups :: "env_action list list" and w :: world
    and x2 x y n1 err e es w2
  assume "wakeups = e # es"
  then show "((drop (nat n1) b, n + n1, es, w2), b, n, wakeups, w)
      \<in> measure (\<lambda>(b, n, wakeups, w). length wakeups + length b)"
    by simp
qed

definition Write :: "byte list \<Rightarrow> env_action list list \<Rightarrow> world
    \<Rightarrow> (int \<times> error option) outcome \<times> world" where
  "Write b wakeups w = Write_loop b 0 wakeups w"

subsection \<open>What the claims speak of\<close>

text \<open>
  The flags that latch and the error that is recorded once: \<open>latched c c'\<close> says that
  \<open>c'\<close> has kept every flag that was set in \<open>c\<close>, and the error of \<open>c\<close> if it had one.
\<close>

definition latched :: "Conn \<Rightarrow> Conn \<Rightarrow> bool" where
  "latched c c' \<longleftrightarrow>
     (closed c \<longrightarrow> closed c') \<and> (gotEOF c \<longrightarrow> gotEOF c') \<and> (destroyed c \<longrightarrow> destroyed c') \<and>
     (\<forall>e. libError c = Some e \<longrightarrow> libError c' = Some e)"

text \<open>The calls of \<^verbatim>\<open>C.utp_write\<close> in a log: what was offered, and the engine's answer.\<close>

fun utp_writes :: "event list \<Rightarrow> (byte list \<times> int) list" where
  "utp_writes [] = []"
| "utp_writes (UtpWrite h bs k # evs) = (bs, k) # utp_writes evs"
| "utp_writes (_ # evs) = utp_writes evs"

text \<open>
  A run of calls hands the buffer \<open>b\<close> over in order: each call is offered what the
  calls before it have left.
\<close>

fun hands_over :: "byte list \<Rightarrow> (byte list \<times> int) list \<Rightarrow> bool" where
  "hands_over b [] = True"
| "hands_over b ((bs, k) # cs) =
     (bs = b \<and> 0 \<le> k \<and> k \<le> int (length b) \<and> hands_over (drop (nat k) b) cs)"

text \<open>The bytes that the data-arrival upcalls among some steps deliver, in order.\<close>

fun arrived :: "env_action list \<Rightarrow> byte list" where
  "arrived [] = []"
| "arrived (OnData bs # as) = bs @ arrived as"
| "arrived (_ # as) = arrived as"

text \<open>The count that a \<^verbatim>\<open>Read\<close> returned; none if it did not return.\<close>

fun taken :: "((nat \<times> error option) \<times> byte list) outcome \<Rightarrow> nat" where
  "taken (Returned ((n, err), b1)) = n"
| "taken _ = 0"

text \<open>The number of calls of \<^verbatim>\<open>C.utp_close\<close> in a log.\<close>

fun closes :: "event list \<Rightarrow> nat" where
  "closes [] = 0"
| "closes (UtpClose h # evs) = Suc (closes evs)"
| "closes (_ # evs) = closes evs"

text \<open>
  A connection as the application gets it, for the examples: a live handle, nothing
  buffered, no flag set, no deadline, at the instant 1000. The engine's answers to
  \<^verbatim>\<open>C.utp_write\<close> are the argument.
\<close>

definition conn0 :: Conn where
  "conn0 = \<lparr>s = Some 1, readBuf = [], gotEOF = False, gotConnect = False, destroyed = False,
     closed = False, libError = None, writeDeadline = 0, writeDeadlineTimer = Stopped,
     readDeadline = 0, readDeadlineTimer = Stopped, numBytesRead = 0, numBytesWritten = 0\<rparr>"

definition world0 :: "(nat \<Rightarrow> int) \<Rightarrow> world" where
  "world0 f = \<lparr>conn = conn0, now = 1000, events = [], utp_write_answer = f, utp_write_calls = 0\<rparr>"

text \<open>
  The scenarios of the spec, built from that connection by the upcalls and operations
  they name.
\<close>

definition eof_scenario :: world where
  "eof_scenario = setGotEOF (onData [0x41, 0x42, 0x43] (setConnected (world0 (\<lambda>k. 0))))"

definition destroyed_scenario :: world where
  "destroyed_scenario = onDestroyed (onData [0x41] (setConnected (world0 (\<lambda>k. 0))))"

definition errored_scenario :: world where
  "errored_scenario =
     (case onLibError ''ECONNRESET'' (onData [0x41] (setConnected (world0 (\<lambda>k. 0)))) of
        Inr w \<Rightarrow> w
      | Inl p \<Rightarrow> world0 (\<lambda>k. 0))"

definition closed_scenario :: world where
  "closed_scenario = snd (Close (setConnected (world0 (\<lambda>k. 0))))"

definition closed_destroyed_scenario :: world where
  "closed_destroyed_scenario = onDestroyed (snd (Close (setConnected (world0 (\<lambda>k. 0)))))"

text \<open>An engine that takes two bytes at the first call and none afterwards.\<close>

definition reset_scenario :: world where
  "reset_scenario = setConnected (world0 (\<lambda>k. if k = 0 then 2 else 0))"

section \<open>Lemmas\<close>

declare Read.simps [simp del] Write_loop.simps [simp del] waitForConnect.simps [simp del]

lemma conn_emit [simp]: "conn (emit e w) = conn w"
  and now_emit [simp]: "now (emit e w) = now w"
  and events_emit [simp]: "events (emit e w) = events w @ [e]"
  and answer_emit [simp]: "utp_write_answer (emit e w) = utp_write_answer w"
  and calls_emit [simp]: "utp_write_calls (emit e w) = utp_write_calls w"
  by (simp_all add: emit_def)

subsection \<open>One turn of each loop\<close>

lemma writeNoWait_cases:
  obtains
    (err) e where "writeNoWait_err w = Some e" "writeNoWait b w = Inr ((0, Some e), w)"
  | (index) "writeNoWait_err w = None" "b = []" "writeNoWait b w = Inl IndexOutOfRange"
  | (negative) "writeNoWait_err w = None" "b \<noteq> []"
      "utp_write_answer w (utp_write_calls w) < 0"
      "writeNoWait b w = Inl (NegativeWrite (utp_write_answer w (utp_write_calls w)))"
  | (accepted) n1 where "writeNoWait_err w = None" "b \<noteq> []"
      "n1 = utp_write_answer w (utp_write_calls w)" "0 \<le> n1"
      "writeNoWait b w =
         Inr ((n1, None), emit (UtpWrite (s (conn w)) b n1) (w\<lparr>utp_write_calls := Suc (utp_write_calls w)\<rparr>))"
  by (cases "writeNoWait_err w"; cases "b = []";
      cases "utp_write_answer w (utp_write_calls w) < 0")
     (auto simp: writeNoWait_def Let_def)

lemma Write_loop_cases:
  obtains
    (finished) "b = []" "Write_loop b n wk w = Write_return n None w"
  | (panic) p where "b \<noteq> []" "writeNoWait b w = Inl p" "Write_loop b n wk w = (Panicked p, w)"
  | (bounds) n1 w1 where "b \<noteq> []" "writeNoWait b w = Inr ((n1, None), w1)"
      "int (length b) < n1" "Write_loop b n wk w = (Panicked SliceBoundsOutOfRange, w1)"
  | (err) e where "b \<noteq> []" "writeNoWait_err w = Some e"
      "Write_loop b n wk w = Write_return n (Some e) w"
  | (progress) n1 w1 where "b \<noteq> []" "writeNoWait b w = Inr ((n1, None), w1)"
      "0 < n1" "n1 \<le> int (length b)"
      "Write_loop b n wk w = Write_loop (drop (nat n1) b) (n + n1) wk w1"
  | (blocked) w1 where "b \<noteq> []" "writeNoWait b w = Inr ((0, None), w1)" "wk = []"
      "Write_loop b n wk w = (Waiting, emit Wait w1)"
  | (woke_panic) w1 e es p where "b \<noteq> []" "writeNoWait b w = Inr ((0, None), w1)"
      "wk = e # es" "run_env e (emit Wait w1) = Inl p"
      "Write_loop b n wk w = (Panicked p, emit Wait w1)"
  | (woke) w1 e es w2 where "b \<noteq> []" "writeNoWait b w = Inr ((0, None), w1)"
      "wk = e # es" "run_env e (emit Wait w1) = Inr w2"
      "Write_loop b n wk w = Write_loop b n es w2"
proof (cases "b = []")
  case True
  then have "Write_loop b n wk w = Write_return n None w"
    by (subst Write_loop.simps) simp
  with True show ?thesis by (rule finished)
next
  case nonempty: False
  show ?thesis
  proof (cases rule: writeNoWait_cases [of w b])
    case (err e)
    with nonempty have "Write_loop b n wk w = Write_return n (Some e) w"
      by (subst Write_loop.simps) simp
    with nonempty err(1) show ?thesis by (rule that(4))
  next
    case index
    with nonempty show ?thesis by simp
  next
    case negative
    with nonempty have "Write_loop b n wk w =
        (Panicked (NegativeWrite (utp_write_answer w (utp_write_calls w))), w)"
      by (subst Write_loop.simps) simp
    with nonempty negative(4) show ?thesis by (rule panic)
  next
    case (accepted n1)
    define w1 where
      "w1 = emit (UtpWrite (s (conn w)) b n1) (w\<lparr>utp_write_calls := Suc (utp_write_calls w)\<rparr>)"
    have wn: "writeNoWait b w = Inr ((n1, None), w1)"
      using accepted(5) by (simp add: w1_def)
    consider "int (length b) < n1" | "0 < n1" "n1 \<le> int (length b)" | "n1 = 0"
      using accepted(4) by linarith
    then show ?thesis
    proof cases
      case 1
      with nonempty wn have "Write_loop b n wk w = (Panicked SliceBoundsOutOfRange, w1)"
        by (subst Write_loop.simps) simp
      with nonempty wn 1 show ?thesis by (rule bounds)
    next
      case 2
      with nonempty wn have
        "Write_loop b n wk w = Write_loop (drop (nat n1) b) (n + n1) wk w1"
        by (subst Write_loop.simps) simp
      with nonempty wn 2 show ?thesis by (rule progress)
    next
      case 3
      show ?thesis
      proof (cases wk)
        case Nil
        with 3 nonempty wn have "Write_loop b n wk w = (Waiting, emit Wait w1)"
          by (subst Write_loop.simps) simp
        with nonempty wn [unfolded 3] Nil show ?thesis by (rule blocked)
      next
        case (Cons e es)
        show ?thesis
        proof (cases "run_env e (emit Wait w1)")
          case (Inl p)
          with 3 Cons nonempty wn have "Write_loop b n wk w = (Panicked p, emit Wait w1)"
            by (subst Write_loop.simps) simp
          with nonempty wn [unfolded 3] Cons Inl show ?thesis by (rule woke_panic)
        next
          case (Inr w2)
          with 3 Cons nonempty wn have "Write_loop b n wk w = Write_loop b n es w2"
            by (subst Write_loop.simps) simp
          with nonempty wn [unfolded 3] Cons Inr show ?thesis by (rule woke)
        qed
      qed
    qed
  qed
qed

lemma Read_cases:
  assumes "readNoWait b w = ((n, err), b1, w1)"
    and "w2 = w1\<lparr>conn := (conn w1)\<lparr>numBytesRead := numBytesRead (conn w1) + of_nat n\<rparr>\<rparr>"
  obtains
    (returns) "n \<noteq> 0 \<or> b = [] \<or> err \<noteq> None" "Read b wk w = (Returned ((n, err), b1), w2)"
  | (blocked) "n = 0" "b \<noteq> []" "err = None" "wk = []" "Read b wk w = (Waiting, emit Wait w2)"
  | (woke_panic) e es p where "n = 0" "b \<noteq> []" "err = None" "wk = e # es"
      "run_env e (emit Wait w2) = Inl p" "Read b wk w = (Panicked p, emit Wait w2)"
  | (woke) e es w3 where "n = 0" "b \<noteq> []" "err = None" "wk = e # es"
      "run_env e (emit Wait w2) = Inr w3" "Read b wk w = Read b es w3"
proof (cases "n \<noteq> 0 \<or> b = [] \<or> err \<noteq> None")
  case True
  with assms have "Read b wk w = (Returned ((n, err), b1), w2)"
    by (subst Read.simps) (simp add: Let_def)
  with True show ?thesis by (rule returns)
next
  case False
  then have f: "n = 0" "b \<noteq> []" "err = None" by simp_all
  show ?thesis
  proof (cases wk)
    case Nil
    with assms f have "Read b wk w = (Waiting, emit Wait w2)"
      by (subst Read.simps) (simp add: Let_def)
    with f Nil show ?thesis by (rule blocked)
  next
    case (Cons e es)
    show ?thesis
    proof (cases "run_env e (emit Wait w2)")
      case (Inl p)
      with assms f Cons have "Read b wk w = (Panicked p, emit Wait w2)"
        by (subst Read.simps) (simp add: Let_def)
      with f Cons Inl show ?thesis by (rule woke_panic)
    next
      case (Inr w3)
      with assms f Cons have "Read b wk w = Read b es w3"
        by (subst Read.simps) (simp add: Let_def)
      with f Cons Inr show ?thesis by (rule woke)
    qed
  qed
qed

subsection \<open>Latching\<close>

lemma latched_refl [simp]: "latched c c"
  by (simp add: latched_def)

lemma latched_trans: "latched c c1 \<Longrightarrow> latched c1 c2 \<Longrightarrow> latched c c2"
  by (simp add: latched_def)

lemma env_step_latched: "env_step a w = Inr w' \<Longrightarrow> latched (conn w) (conn w')"
  by (cases a)
     (auto simp: latched_def setConnected_def onData_def setGotEOF_def onLibError_def
        onDestroyed_def Close_def close_def SetDeadline_def SetReadDeadline_def
        SetWriteDeadline_def LocalAddr_def RemoteAddr_def Let_def
        split: option.splits if_splits)

lemma run_env_latched: "run_env as w = Inr w' \<Longrightarrow> latched (conn w) (conn w')"
proof (induction as arbitrary: w)
  case Nil
  then show ?case by simp
next
  case (Cons a as)
  then obtain w1 where a: "env_step a w = Inr w1" and r: "run_env as w1 = Inr w'"
    by (auto split: sum.splits)
  from env_step_latched [OF a] Cons.IH [OF r] show ?case
    by (rule latched_trans)
qed

lemma readNoWait_latched: "readNoWait b w = (r, b1, w') \<Longrightarrow> latched (conn w) (conn w')"
  by (auto simp: readNoWait_def Let_def latched_def split: if_splits)

lemma writeNoWait_latched: "writeNoWait b w = Inr (r, w') \<Longrightarrow> latched (conn w) (conn w')"
  by (auto simp: writeNoWait_def Let_def latched_def split: if_splits option.splits)

lemma Read_latched: "Read b wk w = (out, w') \<Longrightarrow> latched (conn w) (conn w')"
proof (induction b wk w rule: Read.induct)
  case (1 b wakeups w)
  obtain n err b1 w1 where rn: "readNoWait b w = ((n, err), b1, w1)"
    by (metis prod.exhaust)
  define w2 where "w2 = w1\<lparr>conn := (conn w1)\<lparr>numBytesRead := numBytesRead (conn w1) + of_nat n\<rparr>\<rparr>"
  have l2: "latched (conn w) (conn w2)"
    using readNoWait_latched [OF rn] by (simp add: w2_def latched_def)
  from rn w2_def show ?case
  proof (cases rule: Read_cases [where wk = wakeups])
    case returns
    with "1.prems" l2 show ?thesis by simp
  next
    case blocked
    with "1.prems" l2 show ?thesis by auto
  next
    case (woke_panic e es p)
    with "1.prems" l2 show ?thesis by auto
  next
    case (woke e es w3)
    have "latched (conn w3) (conn w')"
      using "1.IH" [of "(n, err)" "(b1, w1)" n err b1 w1 w2 e es w3] rn w2_def woke "1.prems"
      by simp
    with l2 run_env_latched [OF woke(5)] show ?thesis
      by (auto intro: latched_trans)
  qed
qed

lemma Write_loop_latched: "Write_loop b n wk w = (out, w') \<Longrightarrow> latched (conn w) (conn w')"
proof (induction b n wk w rule: Write_loop.induct)
  case (1 b n wakeups w)
  show ?case
  proof (cases rule: Write_loop_cases [of b n wakeups w])
    case finished
    with "1.prems" show ?thesis by (auto simp: Write_return_def latched_def)
  next
    case (panic p)
    with "1.prems" show ?thesis by simp
  next
    case (bounds n1 w1)
    with "1.prems" writeNoWait_latched [OF bounds(2)] show ?thesis by simp
  next
    case (err e)
    with "1.prems" show ?thesis by (auto simp: Write_return_def latched_def)
  next
    case (progress n1 w1)
    have "latched (conn w1) (conn w')"
      using "1.IH"(1) [of "((n1, None), w1)" "(n1, None)" w1 n1 None] progress "1.prems"
      by simp
    with writeNoWait_latched [OF progress(2)] show ?thesis
      by (rule latched_trans)
  next
    case (blocked w1)
    with "1.prems" writeNoWait_latched [OF blocked(2)] show ?thesis by auto
  next
    case (woke_panic w1 e es p)
    with "1.prems" writeNoWait_latched [OF woke_panic(2)] show ?thesis by auto
  next
    case (woke w1 e es w2)
    have "latched (conn w2) (conn w')"
      using "1.IH"(2) [of "((0, None), w1)" "(0, None)" w1 0 None e es w2] woke "1.prems"
      by simp
    with writeNoWait_latched [OF woke(2)] run_env_latched [OF woke(4)] show ?thesis
      by (auto intro: latched_trans)
  qed
qed

lemma waitForConnect_latched:
  "waitForConnect wk w = (out, w') \<Longrightarrow> latched (conn w) (conn w')"
proof (induction wk arbitrary: w)
  case Nil
  then show ?case
    by (auto simp: waitForConnect.simps [of "[]" w] split: option.splits if_splits)
next
  case (Cons e es)
  show ?case
  proof (cases "libError (conn w) = None \<and> \<not> gotConnect (conn w)")
    case False
    with Cons.prems show ?thesis
      by (auto simp: waitForConnect.simps [of "e # es" w] split: option.splits if_splits)
  next
    case True
    show ?thesis
    proof (cases "run_env e (emit Wait w)")
      case (Inl p)
      with True Cons.prems show ?thesis
        by (auto simp: waitForConnect.simps [of "e # es" w])
    next
      case (Inr w1)
      with True Cons.prems have "waitForConnect es w1 = (out, w')"
        by (auto simp: waitForConnect.simps [of "e # es" w])
      from Cons.IH [OF this] run_env_latched [OF Inr] show ?thesis
        by (auto intro: latched_trans)
    qed
  qed
qed

subsection \<open>The inbound buffer\<close>

lemma arrived_append [simp]: "arrived (xs @ ys) = arrived xs @ arrived ys"
  by (induction xs rule: arrived.induct) simp_all

lemma env_step_readBuf:
  "env_step a w = Inr w' \<Longrightarrow> readBuf (conn w') = readBuf (conn w) @ arrived [a]"
  by (cases a)
     (auto simp: setConnected_def onData_def setGotEOF_def onLibError_def
        onDestroyed_def Close_def close_def SetDeadline_def SetReadDeadline_def
        SetWriteDeadline_def LocalAddr_def RemoteAddr_def Let_def
        split: option.splits if_splits)

lemma run_env_readBuf:
  "run_env as w = Inr w' \<Longrightarrow> readBuf (conn w') = readBuf (conn w) @ arrived as"
proof (induction as arbitrary: w)
  case Nil
  then show ?case by simp
next
  case (Cons a as)
  then obtain w1 where a: "env_step a w = Inr w1" and r: "run_env as w1 = Inr w'"
    by (auto split: sum.splits)
  have "arrived (a # as) = arrived [a] @ arrived as"
    using arrived_append [of "[a]" as] by simp
  with env_step_readBuf [OF a] Cons.IH [OF r] show ?case
    by simp
qed

lemma writeNoWait_conn: "writeNoWait b w = Inr (r, w') \<Longrightarrow> conn w' = conn w"
  by (auto simp: writeNoWait_def Let_def split: option.splits if_splits)

lemma Read_readBuf:
  "Read b wk w = (out, w') \<Longrightarrow>
     \<exists>k. k \<le> length wk \<and>
       readBuf (conn w') = drop (taken out) (readBuf (conn w) @ arrived (concat (take k wk))) \<and>
       (\<forall>r b1. out = Returned (r, b1) \<longrightarrow>
          b1 = take (fst r) (readBuf (conn w) @ arrived (concat (take k wk))) @ drop (fst r) b)"
proof (induction b wk w rule: Read.induct)
  case (1 b wakeups w)
  obtain n err b1 w1 where rn: "readNoWait b w = ((n, err), b1, w1)"
    by (metis prod.exhaust)
  define w2 where "w2 = w1\<lparr>conn := (conn w1)\<lparr>numBytesRead := numBytesRead (conn w1) + of_nat n\<rparr>\<rparr>"
  from rn have n: "n = min (length b) (length (readBuf (conn w)))"
    and b1: "b1 = take n (readBuf (conn w)) @ drop n b"
    and buf: "readBuf (conn w2) = drop n (readBuf (conn w))"
    by (auto simp: readNoWait_def Let_def w2_def)
  have zero: ?case
    if "readBuf (conn w') = drop (taken out) (readBuf (conn w))"
      and "\<forall>r b1. out = Returned (r, b1) \<longrightarrow>
          b1 = take (fst r) (readBuf (conn w)) @ drop (fst r) b"
    using that by (intro exI [of _ 0]) simp
  from rn w2_def show ?case
  proof (cases rule: Read_cases [where wk = wakeups])
    case returns
    with "1.prems" b1 buf show ?thesis by (intro zero) auto
  next
    case blocked
    with "1.prems" buf show ?thesis by (intro zero) auto
  next
    case (woke_panic e es p)
    with "1.prems" buf show ?thesis by (intro zero) auto
  next
    case (woke e es w3)
    from woke(1,2) n have empty: "readBuf (conn w) = []"
      by (cases b; cases "readBuf (conn w)") simp_all
    from run_env_readBuf [OF woke(5)] buf woke(1) empty
    have b3: "readBuf (conn w3) = arrived e" by simp
    have "\<exists>k. k \<le> length es \<and>
       readBuf (conn w') = drop (taken out) (readBuf (conn w3) @ arrived (concat (take k es))) \<and>
       (\<forall>r b1. out = Returned (r, b1) \<longrightarrow>
          b1 = take (fst r) (readBuf (conn w3) @ arrived (concat (take k es))) @ drop (fst r) b)"
      using "1.IH" [of "(n, err)" "(b1, w1)" n err b1 w1 w2 e es w3] rn w2_def woke "1.prems"
      by simp
    then obtain k where k: "k \<le> length es"
      "readBuf (conn w') = drop (taken out) (readBuf (conn w3) @ arrived (concat (take k es)))"
      "\<forall>r b1. out = Returned (r, b1) \<longrightarrow>
          b1 = take (fst r) (readBuf (conn w3) @ arrived (concat (take k es))) @ drop (fst r) b"
      by blast
    have "readBuf (conn w3) @ arrived (concat (take k es))
        = readBuf (conn w) @ arrived (concat (take (Suc k) wakeups))"
      by (simp add: b3 empty woke(4))
    with k woke(4) have "Suc k \<le> length wakeups \<and>
       readBuf (conn w') = drop (taken out) (readBuf (conn w) @ arrived (concat (take (Suc k) wakeups))) \<and>
       (\<forall>r b1. out = Returned (r, b1) \<longrightarrow>
          b1 = take (fst r) (readBuf (conn w) @ arrived (concat (take (Suc k) wakeups))) @ drop (fst r) b)"
      by simp
    then show ?thesis by blast
  qed
qed

lemma Write_loop_readBuf:
  "Write_loop b n wk w = (out, w') \<Longrightarrow>
     \<exists>k. k \<le> length wk \<and> readBuf (conn w') = readBuf (conn w) @ arrived (concat (take k wk))"
proof (induction b n wk w rule: Write_loop.induct)
  case (1 b n wakeups w)
  have zero: "readBuf (conn w') = readBuf (conn w) \<Longrightarrow> ?case"
    by (intro exI [of _ 0]) simp
  show ?case
  proof (cases rule: Write_loop_cases [of b n wakeups w])
    case finished
    with "1.prems" show ?thesis by (intro zero) (auto simp: Write_return_def)
  next
    case (panic p)
    with "1.prems" show ?thesis by (intro zero) simp
  next
    case (bounds n1 w1)
    with "1.prems" writeNoWait_conn [OF bounds(2)] show ?thesis by (intro zero) simp
  next
    case (err e)
    with "1.prems" show ?thesis by (intro zero) (auto simp: Write_return_def)
  next
    case (progress n1 w1)
    have "\<exists>k. k \<le> length wakeups \<and>
        readBuf (conn w') = readBuf (conn w1) @ arrived (concat (take k wakeups))"
      using "1.IH"(1) [of "((n1, None), w1)" "(n1, None)" w1 n1 None] progress "1.prems"
      by simp
    with writeNoWait_conn [OF progress(2)] show ?thesis by simp
  next
    case (blocked w1)
    with "1.prems" writeNoWait_conn [OF blocked(2)] show ?thesis by (intro zero) auto
  next
    case (woke_panic w1 e es p)
    with "1.prems" writeNoWait_conn [OF woke_panic(2)] show ?thesis by (intro zero) auto
  next
    case (woke w1 e es w2)
    have "\<exists>k. k \<le> length es \<and>
        readBuf (conn w') = readBuf (conn w2) @ arrived (concat (take k es))"
      using "1.IH"(2) [of "((0, None), w1)" "(0, None)" w1 0 None e es w2] woke "1.prems"
      by simp
    then obtain k where k: "k \<le> length es"
      "readBuf (conn w') = readBuf (conn w2) @ arrived (concat (take k es))"
      by blast
    from run_env_readBuf [OF woke(4)] writeNoWait_conn [OF woke(2)]
    have "readBuf (conn w2) = readBuf (conn w) @ arrived e" by simp
    with k woke(3) have "Suc k \<le> length wakeups \<and>
        readBuf (conn w') = readBuf (conn w) @ arrived (concat (take (Suc k) wakeups))"
      by simp
    then show ?thesis by blast
  qed
qed

subsection \<open>Calls of the engine's close\<close>

lemma closes_append [simp]: "closes (xs @ ys) = closes xs + closes ys"
  by (induction xs rule: closes.induct) simp_all

lemma env_step_closes:
  assumes "env_step a w = Inr w'"
  shows "closes (events w') = closes (events w) \<or>
         (closes (events w') = Suc (closes (events w)) \<and> \<not> closed (conn w) \<and> closed (conn w'))"
  using assms
  by (cases a)
     (auto simp: setConnected_def onData_def setGotEOF_def onLibError_def
        onDestroyed_def Close_def close_def SetDeadline_def SetReadDeadline_def
        SetWriteDeadline_def LocalAddr_def RemoteAddr_def Let_def
        split: option.splits if_splits)

lemma run_env_closes:
  "run_env as w = Inr w' \<Longrightarrow>
     closes (events w') \<le> Suc (closes (events w)) \<and>
     (closed (conn w) \<longrightarrow> closes (events w') = closes (events w))"
proof (induction as arbitrary: w)
  case Nil
  then show ?case by simp
next
  case (Cons a as)
  then obtain w1 where a: "env_step a w = Inr w1" and r: "run_env as w1 = Inr w'"
    by (auto split: sum.splits)
  have l: "closed (conn w) \<Longrightarrow> closed (conn w1)"
    using env_step_latched [OF a] by (simp add: latched_def)
  from env_step_closes [OF a] Cons.IH [OF r] l show ?case
    by auto
qed

subsection \<open>Calls of the engine's write\<close>

lemma utp_writes_append [simp]: "utp_writes (xs @ ys) = utp_writes xs @ utp_writes ys"
  by (induction xs rule: utp_writes.induct) simp_all

lemma env_step_utp_writes:
  "env_step a w = Inr w' \<Longrightarrow> utp_writes (events w') = utp_writes (events w)"
  by (cases a)
     (auto simp: setConnected_def onData_def setGotEOF_def onLibError_def
        onDestroyed_def Close_def close_def SetDeadline_def SetReadDeadline_def
        SetWriteDeadline_def LocalAddr_def RemoteAddr_def Let_def
        split: option.splits if_splits)

lemma run_env_utp_writes:
  "run_env as w = Inr w' \<Longrightarrow> utp_writes (events w') = utp_writes (events w)"
proof (induction as arbitrary: w)
  case Nil
  then show ?case by simp
next
  case (Cons a as)
  then obtain w1 where a: "env_step a w = Inr w1" and r: "run_env as w1 = Inr w'"
    by (auto split: sum.splits)
  from env_step_utp_writes [OF a] Cons.IH [OF r] show ?case
    by simp
qed

lemma writeNoWait_accepted:
  "writeNoWait b w = Inr ((n1, None), w1) \<Longrightarrow>
     0 \<le> n1 \<and> utp_writes (events w1) = utp_writes (events w) @ [(b, n1)]"
  by (auto simp: writeNoWait_def Let_def split: option.splits if_splits)

lemma writeNoWait_err_numBytesWritten [simp]:
  "writeNoWait_err (w\<lparr>conn := (conn w)\<lparr>numBytesWritten := x\<rparr>\<rparr>) = writeNoWait_err w"
  by (simp add: writeNoWait_err_def Let_def)

lemma hands_over_sum:
  "hands_over b cs \<Longrightarrow> 0 \<le> sum_list (map snd cs) \<and> (\<forall>c\<in>set cs. 0 \<le> snd c)"
  by (induction b cs rule: hands_over.induct) auto

lemma Write_loop_returned:
  "Write_loop b n wk w = (Returned (m, err), w') \<Longrightarrow>
     \<exists>cs. utp_writes (events w') = utp_writes (events w) @ cs \<and>
          m = n + sum_list (map snd cs) \<and> hands_over b cs \<and>
          (err = None \<longrightarrow> m = n + int (length b)) \<and>
          (\<forall>e. err = Some e \<longrightarrow> writeNoWait_err w' = Some e)"
proof (induction b n wk w rule: Write_loop.induct)
  case (1 b n wakeups w)
  show ?case
  proof (cases rule: Write_loop_cases [of b n wakeups w])
    case finished
    with "1.prems" have "utp_writes (events w') = utp_writes (events w) @ []"
      and "m = n + sum_list (map snd [])" and "err = None" and "b = []"
      by (auto simp: Write_return_def)
    then show ?thesis by (intro exI [of _ "[]"]) simp
  next
    case (panic p)
    with "1.prems" show ?thesis by simp
  next
    case (bounds n1 w1)
    with "1.prems" show ?thesis by simp
  next
    case (err e)
    with "1.prems" have "utp_writes (events w') = utp_writes (events w) @ []"
      and "m = n + sum_list (map snd [])" and "err = Some e" and "writeNoWait_err w' = Some e"
      by (auto simp: Write_return_def)
    then show ?thesis by (intro exI [of _ "[]"]) simp
  next
    case (progress n1 w1)
    have "Write_loop (drop (nat n1) b) (n + n1) wakeups w1 = (Returned (m, err), w')"
      using progress "1.prems" by simp
    from "1.IH"(1) [of "((n1, None), w1)" "(n1, None)" w1 n1 None, OF _ _ _ _ _ _ _ this]
    obtain cs where cs: "utp_writes (events w') = utp_writes (events w1) @ cs"
      "m = n + n1 + sum_list (map snd cs)" "hands_over (drop (nat n1) b) cs"
      "err = None \<longrightarrow> m = n + n1 + int (length (drop (nat n1) b))"
      "\<forall>e. err = Some e \<longrightarrow> writeNoWait_err w' = Some e"
      using progress by auto
    from writeNoWait_accepted [OF progress(2)] cs progress(3,4)
    have "utp_writes (events w') = utp_writes (events w) @ ((b, n1) # cs)"
      and "m = n + sum_list (map snd ((b, n1) # cs))"
      and "hands_over b ((b, n1) # cs)"
      and "err = None \<longrightarrow> m = n + int (length b)"
      by auto
    with cs(5) show ?thesis by (intro exI [of _ "(b, n1) # cs"]) simp
  next
    case (blocked w1)
    with "1.prems" show ?thesis by simp
  next
    case (woke_panic w1 e es p)
    with "1.prems" show ?thesis by simp
  next
    case (woke w1 e es w2)
    have "Write_loop (drop (nat 0) b) (n + 0) es w2 = (Returned (m, err), w')"
      using woke "1.prems" by simp
    from "1.IH"(2) [of "((0, None), w1)" "(0, None)" w1 0 None e es w2, OF _ _ _ _ _ _ _ _ _ this]
    obtain cs where cs: "utp_writes (events w') = utp_writes (events w2) @ cs"
      "m = n + sum_list (map snd cs)" "hands_over b cs"
      "err = None \<longrightarrow> m = n + int (length b)"
      "\<forall>e. err = Some e \<longrightarrow> writeNoWait_err w' = Some e"
      using woke by auto
    have "utp_writes (events w2) = utp_writes (events w) @ [(b, 0)]"
      using run_env_utp_writes [OF woke(4)] writeNoWait_accepted [OF woke(2)] by simp
    with cs have "utp_writes (events w') = utp_writes (events w) @ ((b, 0) # cs)"
      and "m = n + sum_list (map snd ((b, 0) # cs))"
      and "hands_over b ((b, 0) # cs)"
      by auto
    with cs(4,5) show ?thesis by (intro exI [of _ "(b, 0) # cs"]) simp
  qed
qed

lemma Write_loop_stops:
  "b \<noteq> [] \<Longrightarrow> writeNoWait_err w = Some e \<Longrightarrow> Write_loop b n wk w = Write_return n (Some e) w"
  by (subst Write_loop.simps) (simp add: writeNoWait_def)

lemma Write_return_zero [simp]: "Write_return 0 err w = (Returned (0, err), w)"
  by (simp add: Write_return_def)

section \<open>The claims\<close>

text \<open>
  C1, on the code. In the spec's scenario (connected, the bytes 0x41 0x42 0x43 arrive,
  then end of stream) the first \<^verbatim>\<open>Read\<close>, into two bytes, returns the two bytes and
  already \<^verbatim>\<open>io.EOF\<close>, while 0x43 is still buffered; the second, into four bytes,
  returns the last byte and \<^verbatim>\<open>io.EOF\<close>.
\<close>

theorem Read_reports_EOF_with_bytes_buffered:
  "fst (Read [0, 0] [] eof_scenario) = Returned ((2, Some EOF), [0x41, 0x42]) \<and>
   readBuf (conn (snd (Read [0, 0] [] eof_scenario))) = [0x43] \<and>
   fst (Read [0, 0, 0, 0] [] (snd (Read [0, 0] [] eof_scenario)))
     = Returned ((1, Some EOF), [0x43, 0, 0, 0])"
  by (simp add: Read.simps readNoWait_def readNoWait_err_def eof_scenario_def setGotEOF_def
      onData_def setConnected_def world0_def conn0_def Let_def)

text \<open>
  C2, as the spec states it: on a connection that is destroyed and closed, with no
  error latched, \<^verbatim>\<open>Write\<close> reports Destroyed. The code reports Closed: the connection
  that was closed and then destroyed is such a state.
\<close>

theorem Write_reports_closed_when_destroyed_too:
  "destroyed (conn closed_destroyed_scenario) \<and> closed (conn closed_destroyed_scenario) \<and>
   libError (conn closed_destroyed_scenario) = None \<and>
   fst (Write [0x41] [] closed_destroyed_scenario) = Returned (0, Some Closed) \<and>
   Closed \<noteq> Destroyed"
  by (simp add: Write_def Write_loop_stops writeNoWait_err_def closed_destroyed_scenario_def
      onDestroyed_def Close_def close_def setConnected_def world0_def conn0_def Let_def)

text \<open>
  C2, amended. When several conditions hold at once, a \<^verbatim>\<open>Write\<close> with bytes to write
  reports them in the order engine error, closed, destroyed, deadline exceeded, and
  returns zero bytes: the latched error whatever else holds; Closed when no error is
  latched, destroyed or not; Destroyed only when the connection is not closed; the
  exceeded deadline only when none of the three holds.
\<close>

theorem Write_error_precedence:
  "b \<noteq> [] \<longrightarrow>
   (\<forall>e. libError (conn w) = Some e \<longrightarrow>
      Write b wk w = (Returned (0, Some (LibError e)), w)) \<and>
   (libError (conn w) = None \<and> closed (conn w) \<longrightarrow>
      Write b wk w = (Returned (0, Some Closed), w)) \<and>
   (libError (conn w) = None \<and> \<not> closed (conn w) \<and> destroyed (conn w) \<longrightarrow>
      Write b wk w = (Returned (0, Some Destroyed), w)) \<and>
   (libError (conn w) = None \<and> \<not> closed (conn w) \<and> \<not> destroyed (conn w) \<and>
    writeDeadline (conn w) \<noteq> 0 \<and> writeDeadline (conn w) \<le> now w \<longrightarrow>
      Write b wk w = (Returned (0, Some DeadlineExceeded), w))"
  by (auto simp: Write_def Write_loop_stops writeNoWait_err_def Let_def)

theorem Write_error_precedence_witness:
  "[0x41 :: byte] \<noteq> [] \<and>
   libError (conn closed_destroyed_scenario) = None \<and> closed (conn closed_destroyed_scenario) \<and>
   destroyed (conn closed_destroyed_scenario) \<and>
   Write [0x41] [] closed_destroyed_scenario
     = (Returned (0, Some Closed), closed_destroyed_scenario)"
proof -
  have h: "libError (conn closed_destroyed_scenario) = None \<and>
      closed (conn closed_destroyed_scenario) \<and> destroyed (conn closed_destroyed_scenario)"
    by (simp add: closed_destroyed_scenario_def onDestroyed_def Close_def close_def
        setConnected_def world0_def conn0_def Let_def)
  with Write_error_precedence [of "[0x41]" closed_destroyed_scenario "[]"] show ?thesis
    by simp
qed

text \<open>
  C3, on the code. A connection that got one byte and was then destroyed has no
  handle left; a \<^verbatim>\<open>Read\<close> that drains the byte calls \<^verbatim>\<open>C.utp_read_drained\<close> all the
  same, with the \<^verbatim>\<open>nil\<close> handle, and returns the byte with the Destroyed error. On a
  connection that got one byte and then an error, the \<^verbatim>\<open>Read\<close> that drains the byte
  calls \<^verbatim>\<open>C.utp_read_drained\<close> with the live handle.
\<close>

theorem Read_calls_read_drained_when_destroyed:
  "destroyed (conn destroyed_scenario) \<and> s (conn destroyed_scenario) = None \<and>
   fst (Read [0] [] destroyed_scenario) = Returned ((1, Some Destroyed), [0x41]) \<and>
   events (snd (Read [0] [] destroyed_scenario))
     = events destroyed_scenario @ [UtpReadDrained None] \<and>
   libError (conn errored_scenario) = Some ''ECONNRESET'' \<and>
   fst (Read [0] [] errored_scenario) = Returned ((1, Some (LibError ''ECONNRESET'')), [0x41]) \<and>
   events (snd (Read [0] [] errored_scenario))
     = events errored_scenario @ [UtpReadDrained (Some 1)]"
  by (simp add: Read.simps readNoWait_def readNoWait_err_def destroyed_scenario_def
      errored_scenario_def onLibError_def
      onDestroyed_def onData_def setConnected_def world0_def conn0_def Let_def)

text \<open>
  C4, as the spec states it: on a closed connection a \<^verbatim>\<open>Write\<close> of no bytes reports
  the terminal error. The code returns \<^verbatim>\<open>(0, nil)\<close>.
\<close>

theorem Write_empty_on_closed_returns_nil:
  "closed (conn closed_scenario) \<and> writeNoWait_err closed_scenario = Some Closed \<and>
   fst (Write [] [] closed_scenario) = Returned (0, None)"
  by (simp add: Write_def Write_loop.simps [of "[]"] writeNoWait_err_def closed_scenario_def
      Close_def close_def setConnected_def world0_def conn0_def Let_def)

text \<open>
  C4, amended. A \<^verbatim>\<open>Write\<close> of no bytes makes no check: in every state it returns
  \<^verbatim>\<open>(0, nil)\<close> and changes nothing. The terminal condition (a latched error, closed,
  destroyed, or a write deadline that is set and has passed) is checked once per turn
  of the loop, so only when bytes remain: a \<^verbatim>\<open>Write\<close> of at least one byte in such a
  state returns zero bytes and that error, and changes nothing.
\<close>

theorem Write_empty_makes_no_check:
  "Write [] wk w = (Returned (0, None), w) \<and>
   (writeNoWait_err w \<noteq> None) =
     (libError (conn w) \<noteq> None \<or> closed (conn w) \<or> destroyed (conn w) \<or>
      (writeDeadline (conn w) \<noteq> 0 \<and> writeDeadline (conn w) \<le> now w)) \<and>
   (\<forall>b e. b \<noteq> [] \<and> writeNoWait_err w = Some e \<longrightarrow>
      Write b wk w = (Returned (0, Some e), w))"
proof (intro conjI allI impI)
  show "Write [] wk w = (Returned (0, None), w)"
    by (simp add: Write_def Write_loop.simps [of "[]"])
  show "(writeNoWait_err w \<noteq> None) =
     (libError (conn w) \<noteq> None \<or> closed (conn w) \<or> destroyed (conn w) \<or>
      (writeDeadline (conn w) \<noteq> 0 \<and> writeDeadline (conn w) \<le> now w))"
    by (auto simp: writeNoWait_err_def Let_def split: option.splits)
next
  fix b :: "byte list" and e
  assume "b \<noteq> [] \<and> writeNoWait_err w = Some e"
  then show "Write b wk w = (Returned (0, Some e), w)"
    by (simp add: Write_def Write_loop_stops)
qed

theorem Write_empty_makes_no_check_witness:
  "Write [] [] closed_scenario = (Returned (0, None), closed_scenario) \<and>
   writeNoWait_err closed_scenario = Some Closed \<and>
   Write [0x41] [] closed_scenario = (Returned (0, Some Closed), closed_scenario)"
proof -
  have h: "writeNoWait_err closed_scenario = Some Closed"
    by (simp add: writeNoWait_err_def closed_scenario_def Close_def close_def
        setConnected_def world0_def conn0_def Let_def)
  moreover have "[0x41 :: byte] \<noteq> []" by simp
  ultimately show ?thesis
    using Write_empty_makes_no_check [of "[]" closed_scenario] by blast
qed

text \<open>
  C5. When \<^verbatim>\<open>Write\<close> returns, its count is the sum of what the engine accepted in the
  calls of \<^verbatim>\<open>C.utp_write\<close> that this \<^verbatim>\<open>Write\<close> made, and each of those calls was
  offered exactly what the calls before it had left of the buffer: nothing is counted
  twice and nothing is skipped. With no error the count is the length of the buffer;
  with an error, the error is the terminal condition of the connection as \<^verbatim>\<open>Write\<close>
  left it. And a loop that meets a terminal condition with bytes still to write returns
  at once the count it has accumulated so far together with that error.
\<close>

theorem Write_count_is_accepted:
  "(\<forall>m err w'. Write b wk w = (Returned (m, err), w') \<longrightarrow>
      (\<exists>cs. utp_writes (events w') = utp_writes (events w) @ cs \<and>
            m = sum_list (map snd cs) \<and> hands_over b cs) \<and>
      (err = None \<longrightarrow> m = int (length b)) \<and>
      (\<forall>e. err = Some e \<longrightarrow> writeNoWait_err w' = Some e)) \<and>
   (\<forall>e. b \<noteq> [] \<and> writeNoWait_err w = Some e \<longrightarrow>
      Write_loop b n wk w =
        (Returned (n, Some e),
         w\<lparr>conn := (conn w)\<lparr>numBytesWritten := numBytesWritten (conn w) + word_of_int n\<rparr>\<rparr>))"
proof (intro conjI allI impI)
  fix m err w'
  assume "Write b wk w = (Returned (m, err), w')"
  then have "\<exists>cs. utp_writes (events w') = utp_writes (events w) @ cs \<and>
          m = 0 + sum_list (map snd cs) \<and> hands_over b cs \<and>
          (err = None \<longrightarrow> m = 0 + int (length b)) \<and>
          (\<forall>e. err = Some e \<longrightarrow> writeNoWait_err w' = Some e)"
    unfolding Write_def by (rule Write_loop_returned)
  then show "\<exists>cs. utp_writes (events w') = utp_writes (events w) @ cs \<and>
            m = sum_list (map snd cs) \<and> hands_over b cs"
    and "err = None \<Longrightarrow> m = int (length b)"
    and "\<And>e. err = Some e \<Longrightarrow> writeNoWait_err w' = Some e"
    by auto
next
  fix e
  assume "b \<noteq> [] \<and> writeNoWait_err w = Some e"
  then show "Write_loop b n wk w =
        (Returned (n, Some e),
         w\<lparr>conn := (conn w)\<lparr>numBytesWritten := numBytesWritten (conn w) + word_of_int n\<rparr>\<rparr>)"
    by (simp add: Write_loop_stops Write_return_def)
qed

theorem Write_count_is_accepted_witness:
  "fst (Write [1, 2, 3, 4, 5] [[OnError ''ECONNRESET'']] reset_scenario)
     = Returned (2, Some (LibError ''ECONNRESET'')) \<and>
   utp_writes (events reset_scenario) = [] \<and>
   utp_writes (events (snd (Write [1, 2, 3, 4, 5] [[OnError ''ECONNRESET'']] reset_scenario)))
     = [([1, 2, 3, 4, 5], 2), ([3, 4, 5], 0)] \<and>
   writeNoWait_err (snd (Write [1, 2, 3, 4, 5] [[OnError ''ECONNRESET'']] reset_scenario))
     = Some (LibError ''ECONNRESET'')"
proof -
  let ?r = "Write [1, 2, 3, 4, 5] [[OnError ''ECONNRESET'']] reset_scenario"
  have f: "fst ?r = Returned (2, Some (LibError ''ECONNRESET''))"
    by code_simp
  then have r: "?r = (Returned (2, Some (LibError ''ECONNRESET'')), snd ?r)"
    by (simp add: prod_eq_iff)
  have e0: "utp_writes (events reset_scenario) = []"
    by code_simp
  have e1: "utp_writes (events (snd ?r)) = [([1, 2, 3, 4, 5], 2), ([3, 4, 5], 0)]"
    by code_simp
  from Write_count_is_accepted [of "[1, 2, 3, 4, 5]" "[[OnError ''ECONNRESET'']]"
      reset_scenario 0] r
  have "writeNoWait_err (snd ?r) = Some (LibError ''ECONNRESET'')"
    by blast
  with f e0 e1 show ?thesis by simp
qed

text \<open>
  C6. The latched error is set at most once. On a connection with no error latched,
  \<^verbatim>\<open>onLibError\<close> records the code it is given; from then on, whatever upcalls and
  non-blocking operations run without a panic, the recorded error stays the first one,
  and any further \<^verbatim>\<open>onLibError\<close> panics with "multiple lib errors" instead of
  returning a changed connection.
\<close>

theorem onLibError_latches_once:
  assumes "libError (conn w) = None"
  shows "\<exists>w1. onLibError code1 w = Inr w1 \<and> libError (conn w1) = Some code1 \<and>
           (\<forall>as w2 code2. run_env as w1 = Inr w2 \<longrightarrow>
              libError (conn w2) = Some code1 \<and>
              onLibError code2 w2 = Inl (MultipleLibErrors code2 code1))"
proof -
  define w1 where "w1 = emit Broadcast (w\<lparr>conn := (conn w)\<lparr>libError := Some code1\<rparr>\<rparr>)"
  have first: "onLibError code1 w = Inr w1"
    using assms by (simp add: onLibError_def w1_def)
  have kept: "libError (conn w1) = Some code1"
    by (simp add: w1_def)
  have later: "libError (conn w2) = Some code1 \<and>
      onLibError code2 w2 = Inl (MultipleLibErrors code2 code1)"
    if "run_env as w1 = Inr w2" for as w2 code2
  proof -
    from run_env_latched [OF that] kept have "libError (conn w2) = Some code1"
      by (simp add: latched_def)
    then show ?thesis by (simp add: onLibError_def)
  qed
  from first kept later show ?thesis by blast
qed

theorem onLibError_latches_once_witness:
  "libError (conn (world0 (\<lambda>k. 0))) = None \<and>
   (\<exists>w1. onLibError ''ECONNRESET'' (world0 (\<lambda>k. 0)) = Inr w1 \<and>
      libError (conn w1) = Some ''ECONNRESET'' \<and>
      onLibError ''ETIMEDOUT'' w1 = Inl (MultipleLibErrors ''ETIMEDOUT'' ''ECONNRESET''))"
proof -
  have h: "libError (conn (world0 (\<lambda>k. 0))) = None"
    by (simp add: world0_def conn0_def)
  from onLibError_latches_once [OF h, of "''ECONNRESET''"]
  obtain w1 where "onLibError ''ECONNRESET'' (world0 (\<lambda>k. 0)) = Inr w1"
    and "libError (conn w1) = Some ''ECONNRESET''"
    and l: "\<forall>as w2 code2. run_env as w1 = Inr w2 \<longrightarrow>
              libError (conn w2) = Some ''ECONNRESET'' \<and>
              onLibError code2 w2 = Inl (MultipleLibErrors code2 ''ECONNRESET'')"
    by blast
  moreover have "run_env [] w1 = Inr w1" by simp
  ultimately show ?thesis using h by blast
qed

text \<open>
  C7. \<^verbatim>\<open>Close\<close> always returns \<^verbatim>\<open>nil\<close>. A second \<^verbatim>\<open>Close\<close>, and any number of them,
  leaves the connection, the log and everything else as the first one left them. One
  \<^verbatim>\<open>Close\<close> calls \<^verbatim>\<open>C.utp_close\<close> once if the connection was neither closed nor
  destroyed, and not at all otherwise; and after a \<^verbatim>\<open>Close\<close>, no run of upcalls and
  non-blocking operations (further \<^verbatim>\<open>Close\<close> calls among them) calls it again.
\<close>

theorem Close_idempotent:
  "fst (Close w) = None \<and>
   snd (Close (snd (Close w))) = snd (Close w) \<and>
   ((\<lambda>v. snd (Close v)) ^^ Suc k) w = snd (Close w) \<and>
   events (snd (Close w)) = events w @
     (if closed (conn w) then []
      else if destroyed (conn w) then [Broadcast]
      else [UtpClose (s (conn w)), Broadcast]) \<and>
   closed (conn (snd (Close w))) \<and>
   (\<forall>as w'. run_env as (snd (Close w)) = Inr w' \<longrightarrow>
      closes (events w') = closes (events (snd (Close w))))"
proof -
  have c: "closed (conn (close v))" for v
    by (simp add: close_def Let_def)
  have twice: "close (close v) = close v" for v
    using c [of v] by (simp add: close_def [of "close v"])
  have "((\<lambda>v. snd (Close v)) ^^ Suc k) w = close w"
    by (induction k) (simp_all add: Close_def twice)
  moreover have "events (close w) = events w @
     (if closed (conn w) then []
      else if destroyed (conn w) then [Broadcast]
      else [UtpClose (s (conn w)), Broadcast])"
    by (simp add: close_def Let_def emit_def)
  moreover have "closes (events w') = closes (events (close w))"
    if "run_env as (close w) = Inr w'" for as w'
    using run_env_closes [OF that] c [of w] by simp
  ultimately show ?thesis
    using c [of w] twice [of w] by (simp add: Close_def)
qed

theorem Close_idempotent_witness:
  "run_env [DoClose, OnDestroyed, DoClose] (snd (Close (world0 (\<lambda>k. 0))))
     = Inr (onDestroyed (snd (Close (world0 (\<lambda>k. 0))))) \<and>
   events (snd (Close (world0 (\<lambda>k. 0)))) = [UtpClose (Some 1), Broadcast] \<and>
   closes (events (onDestroyed (snd (Close (world0 (\<lambda>k. 0)))))) = 1 \<and>
   snd (Close (snd (Close (world0 (\<lambda>k. 0))))) = snd (Close (world0 (\<lambda>k. 0)))"
proof -
  let ?w = "world0 (\<lambda>k. 0)"
  have r: "run_env [DoClose, OnDestroyed, DoClose] (snd (Close ?w))
      = Inr (onDestroyed (snd (Close ?w)))"
    by (simp add: Close_def close_def onDestroyed_def Let_def)
  have e: "events (snd (Close ?w)) = [UtpClose (Some 1), Broadcast]"
    by (simp add: Close_def close_def Let_def world0_def conn0_def)
  have "\<forall>as w'. run_env as (snd (Close ?w)) = Inr w' \<longrightarrow>
      closes (events w') = closes (events (snd (Close ?w)))"
    and i: "snd (Close (snd (Close ?w))) = snd (Close ?w)"
    using Close_idempotent [of ?w 0] by blast+
  with r have "closes (events (onDestroyed (snd (Close ?w)))) = closes (events (snd (Close ?w)))"
    by blast
  with r e i show ?thesis
    by simp
qed

text \<open>
  C8. Every step keeps what has latched: a flag \<^verbatim>\<open>closed\<close>, \<^verbatim>\<open>gotEOF\<close> or
  \<^verbatim>\<open>destroyed\<close> that is set stays set, and a recorded error stays the same error. This
  holds for each upcall and each non-blocking operation (the steps of \<open>env_step\<close>), for
  \<^verbatim>\<open>readNoWait\<close> and \<^verbatim>\<open>writeNoWait\<close>, and for \<^verbatim>\<open>Read\<close>, \<^verbatim>\<open>Write\<close> and
  \<^verbatim>\<open>waitForConnect\<close> however they end and whatever runs while they wait.

  The inbound buffer: a step other than the arrival of data leaves it as it is, and the
  arrival of data appends the bytes delivered; \<^verbatim>\<open>readNoWait\<close> removes from its
  front the bytes it returns; \<^verbatim>\<open>writeNoWait\<close> changes no field at all. So after a
  \<^verbatim>\<open>Read\<close> the buffer is what it was, then the bytes that arrived during its waits,
  less the bytes this \<^verbatim>\<open>Read\<close> returned; after a \<^verbatim>\<open>Write\<close> it is what it was, then
  the bytes that arrived during its waits.
\<close>

theorem invariants_preserved:
  "(\<forall>a w'. env_step a w = Inr w' \<longrightarrow>
      latched (conn w) (conn w') \<and> readBuf (conn w') = readBuf (conn w) @ arrived [a]) \<and>
   (\<forall>b r b1 w'. readNoWait b w = (r, b1, w') \<longrightarrow>
      latched (conn w) (conn w') \<and> readBuf (conn w') = drop (fst r) (readBuf (conn w))) \<and>
   (\<forall>b r w'. writeNoWait b w = Inr (r, w') \<longrightarrow> conn w' = conn w) \<and>
   (\<forall>b wk out w'. Read b wk w = (out, w') \<longrightarrow>
      latched (conn w) (conn w') \<and>
      (\<exists>k. k \<le> length wk \<and>
         readBuf (conn w') =
           drop (taken out) (readBuf (conn w) @ arrived (concat (take k wk))))) \<and>
   (\<forall>b wk out w'. Write b wk w = (out, w') \<longrightarrow>
      latched (conn w) (conn w') \<and>
      (\<exists>k. k \<le> length wk \<and>
         readBuf (conn w') = readBuf (conn w) @ arrived (concat (take k wk)))) \<and>
   (\<forall>wk out w'. waitForConnect wk w = (out, w') \<longrightarrow> latched (conn w) (conn w'))"
proof (intro conjI allI impI)
  fix a w'
  assume "env_step a w = Inr w'"
  then show "latched (conn w) (conn w')"
    and "readBuf (conn w') = readBuf (conn w) @ arrived [a]"
    by (rule env_step_latched, rule env_step_readBuf)
next
  fix b r b1 w'
  assume r: "readNoWait b w = (r, b1, w')"
  then show "latched (conn w) (conn w')"
    by (rule readNoWait_latched)
  from r show "readBuf (conn w') = drop (fst r) (readBuf (conn w))"
    by (auto simp: readNoWait_def Let_def)
next
  fix b r w'
  assume "writeNoWait b w = Inr (r, w')"
  then show "conn w' = conn w"
    by (rule writeNoWait_conn)
next
  fix b wk out w'
  assume r: "Read b wk w = (out, w')"
  then show "latched (conn w) (conn w')"
    by (rule Read_latched)
  from Read_readBuf [OF r]
  show "\<exists>k. k \<le> length wk \<and>
         readBuf (conn w') =
           drop (taken out) (readBuf (conn w) @ arrived (concat (take k wk)))"
    by blast
next
  fix b wk out w'
  assume "Write b wk w = (out, w')"
  then have l: "Write_loop b 0 wk w = (out, w')"
    by (simp add: Write_def)
  then show "latched (conn w) (conn w')"
    by (rule Write_loop_latched)
  from l show "\<exists>k. k \<le> length wk \<and>
         readBuf (conn w') = readBuf (conn w) @ arrived (concat (take k wk))"
    by (rule Write_loop_readBuf)
next
  fix wk out w'
  assume "waitForConnect wk w = (out, w')"
  then show "latched (conn w) (conn w')"
    by (rule waitForConnect_latched)
qed

theorem invariants_preserved_witness:
  "gotEOF (conn eof_scenario) \<and>
   env_step (OnData [0x44]) eof_scenario = Inr (onData [0x44] eof_scenario) \<and>
   gotEOF (conn (onData [0x44] eof_scenario)) \<and>
   readBuf (conn (onData [0x44] eof_scenario)) = [0x41, 0x42, 0x43, 0x44] \<and>
   gotEOF (conn (snd (Read [0, 0] [] eof_scenario))) \<and>
   readBuf (conn (snd (Read [0, 0] [] eof_scenario))) = [0x43]"
proof -
  have g: "gotEOF (conn eof_scenario)"
    and b: "readBuf (conn eof_scenario) = [0x41, 0x42, 0x43]"
    by (simp_all add: eof_scenario_def setGotEOF_def onData_def setConnected_def
        world0_def conn0_def)
  have s: "env_step (OnData [0x44]) eof_scenario = Inr (onData [0x44] eof_scenario)"
    by simp
  have r: "Read [0, 0] [] eof_scenario
      = (fst (Read [0, 0] [] eof_scenario), snd (Read [0, 0] [] eof_scenario))"
    by simp
  have t: "taken (fst (Read [0, 0] [] eof_scenario)) = 2"
    by (simp add: Read.simps readNoWait_def readNoWait_err_def eof_scenario_def setGotEOF_def
        onData_def setConnected_def world0_def conn0_def Let_def)
  note i = invariants_preserved [of eof_scenario]
  from i s have "latched (conn eof_scenario) (conn (onData [0x44] eof_scenario))"
    and "readBuf (conn (onData [0x44] eof_scenario))
      = readBuf (conn eof_scenario) @ arrived [OnData [0x44]]"
    by blast+
  moreover from i r have "latched (conn eof_scenario) (conn (snd (Read [0, 0] [] eof_scenario)))"
    and "\<exists>k. k \<le> length ([] :: env_action list list) \<and>
         readBuf (conn (snd (Read [0, 0] [] eof_scenario))) =
           drop (taken (fst (Read [0, 0] [] eof_scenario)))
             (readBuf (conn eof_scenario) @ arrived (concat (take k [])))"
    by blast+
  ultimately show ?thesis
    using g b s t by (auto simp: latched_def)
qed

text \<open>
  C9, as the spec states it: for a time \<open>t\<close> that is not zero, \<^verbatim>\<open>SetReadDeadline(t)\<close>
  re-arms the read timer for the absolute time \<open>t\<close>. At the instant 1000, a deadline
  \<open>10 ^ 22\<close> nanoseconds after the zero time is further away than any duration: the
  timer is reset with the largest duration and is due before \<open>t\<close>.
\<close>

theorem SetReadDeadline_far_deadline_saturates:
  "now (world0 (\<lambda>k. 0)) = 1000 \<and>
   fst (SetReadDeadline 10000000000000000000000 (world0 (\<lambda>k. 0))) = None \<and>
   readDeadline (conn (snd (SetReadDeadline 10000000000000000000000 (world0 (\<lambda>k. 0)))))
     = 10000000000000000000000 \<and>
   readDeadlineTimer (conn (snd (SetReadDeadline 10000000000000000000000 (world0 (\<lambda>k. 0)))))
     = FiresAt 9223372036854776807 \<and>
   FiresAt 9223372036854776807 \<noteq> FiresAt 10000000000000000000000"
  by (simp add: SetReadDeadline_def Sub_def Reset_def maxDuration_def minDuration_def
      world0_def Let_def)

text \<open>
  C9, amended. \<^verbatim>\<open>SetReadDeadline(t)\<close> returns \<^verbatim>\<open>nil\<close>. Of the connection it changes the
  read deadline, which becomes \<open>t\<close>, and the read timer; the write deadline, its timer
  and every other field stay as they were. The read timer is stopped when \<open>t\<close> is the
  zero time. Otherwise it is reset with the duration \<^verbatim>\<open>t.Sub(time.Now())\<close>: it is due
  at \<open>t\<close> when the distance from now to \<open>t\<close> fits in a duration, a largest duration
  after now when \<open>t\<close> is further ahead, and a smallest duration after now when \<open>t\<close> is
  further back. The one event of the call is the broadcast, made after the update: the
  world it returns is the updated one with \<open>Broadcast\<close> at the end of its log.
\<close>

theorem SetReadDeadline_frame:
  "SetReadDeadline t w =
     (None,
      w\<lparr>conn := (conn w)\<lparr>readDeadline := t,
                          readDeadlineTimer :=
                            (if t = 0 then Stopped else FiresAt (now w + Sub t (now w)))\<rparr>,
        events := events w @ [Broadcast]\<rparr>) \<and>
   writeDeadline (conn (snd (SetReadDeadline t w))) = writeDeadline (conn w) \<and>
   writeDeadlineTimer (conn (snd (SetReadDeadline t w))) = writeDeadlineTimer (conn w) \<and>
   (t \<noteq> 0 \<and> minDuration \<le> t - now w \<and> t - now w \<le> maxDuration \<longrightarrow>
      readDeadlineTimer (conn (snd (SetReadDeadline t w))) = FiresAt t) \<and>
   (t \<noteq> 0 \<and> maxDuration < t - now w \<longrightarrow>
      readDeadlineTimer (conn (snd (SetReadDeadline t w))) = FiresAt (now w + maxDuration)) \<and>
   (t \<noteq> 0 \<and> t - now w < minDuration \<longrightarrow>
      readDeadlineTimer (conn (snd (SetReadDeadline t w))) = FiresAt (now w + minDuration))"
  by (simp add: SetReadDeadline_def Sub_def Reset_def maxDuration_def minDuration_def
      Let_def emit_def)

theorem SetReadDeadline_frame_witness:
  "(5000 :: int) \<noteq> 0 \<and> minDuration \<le> 5000 - now (world0 (\<lambda>k. 0)) \<and>
   5000 - now (world0 (\<lambda>k. 0)) \<le> maxDuration \<and>
   readDeadlineTimer (conn (snd (SetReadDeadline 5000 (world0 (\<lambda>k. 0))))) = FiresAt 5000 \<and>
   readDeadline (conn (snd (SetReadDeadline 5000 (world0 (\<lambda>k. 0))))) = 5000 \<and>
   events (snd (SetReadDeadline 5000 (world0 (\<lambda>k. 0)))) = [Broadcast] \<and>
   maxDuration < 10000000000000000000000 - now (world0 (\<lambda>k. 0)) \<and>
   readDeadlineTimer (conn (snd (SetReadDeadline 10000000000000000000000 (world0 (\<lambda>k. 0)))))
     = FiresAt (now (world0 (\<lambda>k. 0)) + maxDuration) \<and>
   snd (SetReadDeadline 0 (world0 (\<lambda>k. 0)))
     = (world0 (\<lambda>k. 0))\<lparr>conn := conn0\<lparr>readDeadline := 0, readDeadlineTimer := Stopped\<rparr>,
                           events := [Broadcast]\<rparr>"
proof -
  let ?w = "world0 (\<lambda>k. 0)"
  have h1: "(5000 :: int) \<noteq> 0 \<and> minDuration \<le> 5000 - now ?w \<and> 5000 - now ?w \<le> maxDuration"
    by (simp add: world0_def minDuration_def maxDuration_def)
  have h2: "(10000000000000000000000 :: int) \<noteq> 0 \<and>
      maxDuration < 10000000000000000000000 - now ?w"
    by (simp add: world0_def maxDuration_def)
  have c: "conn ?w = conn0" and e: "events ?w = []"
    by (simp_all add: world0_def)
  from SetReadDeadline_frame [of 5000 ?w] h1
  have a: "readDeadlineTimer (conn (snd (SetReadDeadline 5000 ?w))) = FiresAt 5000"
    and a': "SetReadDeadline 5000 ?w =
      (None, ?w\<lparr>conn := (conn ?w)\<lparr>readDeadline := 5000,
                 readDeadlineTimer := (if (5000::int) = 0 then Stopped
                                       else FiresAt (now ?w + Sub 5000 (now ?w)))\<rparr>,
               events := events ?w @ [Broadcast]\<rparr>)"
    by blast+
  from a' have b: "readDeadline (conn (snd (SetReadDeadline 5000 ?w))) = 5000"
    and b': "events (snd (SetReadDeadline 5000 ?w)) = [Broadcast]"
    by (simp_all add: e)
  from SetReadDeadline_frame [of 10000000000000000000000 ?w] h2
  have f: "readDeadlineTimer (conn (snd (SetReadDeadline 10000000000000000000000 ?w)))
      = FiresAt (now ?w + maxDuration)"
    by blast
  from SetReadDeadline_frame [of 0 ?w]
  have z: "snd (SetReadDeadline 0 ?w)
      = ?w\<lparr>conn := conn0\<lparr>readDeadline := 0, readDeadlineTimer := Stopped\<rparr>,
            events := [Broadcast]\<rparr>"
    by (simp add: c e)
  from h1 h2 a b b' f z show ?thesis by blast
qed

text \<open>
  C10. When \<^verbatim>\<open>C.utp_write\<close> answers a negative count, \<^verbatim>\<open>writeNoWait\<close> panics with
  that count and so does the \<^verbatim>\<open>Write\<close> loop: no error is returned. So whatever
  \<^verbatim>\<open>writeNoWait\<close> returns has a count of at least zero, a \<^verbatim>\<open>Write\<close> that returns
  has a count of at least zero, and every answer of the engine logged during such a
  \<^verbatim>\<open>Write\<close> is at least zero.
\<close>

theorem negative_write_panics:
  "(writeNoWait_err w = None \<and> b \<noteq> [] \<and> utp_write_answer w (utp_write_calls w) < 0 \<longrightarrow>
      writeNoWait b w = Inl (NegativeWrite (utp_write_answer w (utp_write_calls w))) \<and>
      Write_loop b n wk w = (Panicked (NegativeWrite (utp_write_answer w (utp_write_calls w))), w)) \<and>
   (\<forall>n1 err w1. writeNoWait b w = Inr ((n1, err), w1) \<longrightarrow> 0 \<le> n1) \<and>
   (\<forall>m err w'. Write b wk w = (Returned (m, err), w') \<longrightarrow>
      0 \<le> m \<and>
      (\<forall>c\<in>set (drop (length (utp_writes (events w))) (utp_writes (events w'))). 0 \<le> snd c))"
proof (intro conjI allI impI)
  assume a: "writeNoWait_err w = None \<and> b \<noteq> [] \<and> utp_write_answer w (utp_write_calls w) < 0"
  then show p: "writeNoWait b w = Inl (NegativeWrite (utp_write_answer w (utp_write_calls w)))"
    by (simp add: writeNoWait_def Let_def)
  with a show "Write_loop b n wk w =
      (Panicked (NegativeWrite (utp_write_answer w (utp_write_calls w))), w)"
    by (subst Write_loop.simps) simp
next
  fix n1 err w1
  assume "writeNoWait b w = Inr ((n1, err), w1)"
  then show "0 \<le> n1"
    by (auto simp: writeNoWait_def Let_def split: option.splits if_splits)
next
  fix m err w'
  assume "Write b wk w = (Returned (m, err), w')"
  then obtain cs where cs: "utp_writes (events w') = utp_writes (events w) @ cs"
    "m = 0 + sum_list (map snd cs)" "hands_over b cs"
    using Write_loop_returned [of b 0 wk w m err w'] by (auto simp: Write_def)
  from hands_over_sum [OF cs(3)] cs(1,2)
  show "0 \<le> m" and "\<forall>c\<in>set (drop (length (utp_writes (events w))) (utp_writes (events w'))). 0 \<le> snd c"
    by simp_all
qed

theorem negative_write_panics_witness:
  "writeNoWait_err (world0 (\<lambda>k. - 1)) = None \<and>
   utp_write_answer (world0 (\<lambda>k. - 1)) (utp_write_calls (world0 (\<lambda>k. - 1))) < 0 \<and>
   Write_loop [1, 2, 3] 0 [] (world0 (\<lambda>k. - 1))
     = (Panicked (NegativeWrite (- 1)), world0 (\<lambda>k. - 1)) \<and>
   fst (Write [1, 2, 3, 4, 5] [[OnError ''ECONNRESET'']] reset_scenario)
     = Returned (2, Some (LibError ''ECONNRESET'')) \<and>
   (0::int) \<le> 2"
proof -
  let ?w = "world0 (\<lambda>k. - 1)"
  let ?r = "Write [1, 2, 3, 4, 5] [[OnError ''ECONNRESET'']] reset_scenario"
  have h: "writeNoWait_err ?w = None \<and> [1, 2, 3 :: byte] \<noteq> [] \<and>
      utp_write_answer ?w (utp_write_calls ?w) < 0"
    by (simp add: writeNoWait_err_def world0_def conn0_def)
  have a: "utp_write_answer ?w (utp_write_calls ?w) = - 1"
    by (simp add: world0_def)
  have f: "fst ?r = Returned (2, Some (LibError ''ECONNRESET''))"
    by code_simp
  then have r: "?r = (Returned (2, Some (LibError ''ECONNRESET'')), snd ?r)"
    by (simp add: prod_eq_iff)
  note t = negative_write_panics [of ?w "[1, 2, 3]" 0 "[]"]
  from t h a have "Write_loop [1, 2, 3] 0 [] ?w = (Panicked (NegativeWrite (- 1)), ?w)"
    by simp
  moreover from negative_write_panics [of reset_scenario "[1, 2, 3, 4, 5]" 0
      "[[OnError ''ECONNRESET'']]"] r
  have "(0::int) \<le> 2" by blast
  ultimately show ?thesis using h f by simp
qed

end
